theory Spec2Isabelle
  imports Complex_Main "HOL-Library.Word"
begin

section \<open>Numbers of the playback timer\<close>

text \<open>
  Modelled from the spec: the type of the timer is declared in \<^verbatim>\<open>sdlapp.h\<close>, not in
  \<^verbatim>\<open>sdlapp.c\<close>. The specification speaks of fractional timer accumulation, and
  \<^verbatim>\<open>sdlapp.c\<close> assigns the timer the result of \<^verbatim>\<open>fmod\<close> and adds the \<^verbatim>\<open>double\<close> playback
  speed to it, so the timer is taken to be a C \<^verbatim>\<open>double\<close> (IEEE 754 binary64). A double is
  a real number, one of the two infinities, or \<open>NaN\<close>. The two zeros are not told apart: no
  comparison of \<^verbatim>\<open>sdlapp.c\<close> does.
\<close>

datatype dbl = Num real | PInf | NInf | NaN

text \<open>The number of binary digits of a positive whole number.\<close>

function bit_length :: "int \<Rightarrow> int" where
  "bit_length n = (if n \<le> 0 then 0 else bit_length (n div 2) + 1)"
  by pat_completeness auto
termination
proof (relation "measure nat")
  show "wf (measure nat)" by simp
next
  fix n :: int
  assume "\<not> n \<le> 0"
  then have "n div 2 < n" by linarith
  with \<open>\<not> n \<le> 0\<close> show "(n div 2, n) \<in> measure nat" by simp
qed

declare bit_length.simps [simp del]

definition pow2 :: "int \<Rightarrow> real" where
  "pow2 e = (if 0 \<le> e then 2 ^ nat e else 1 / 2 ^ nat (- e))"

text \<open>The binary exponent of a positive real \<open>x\<close>: the \<open>e\<close> with \<open>2 ^ e \<le> x < 2 ^ (e + 1)\<close>.\<close>

definition exponent :: "real \<Rightarrow> int" where
  "exponent x =
     (if 1 \<le> x then bit_length \<lfloor>x\<rfloor> - 1 else - bit_length (\<lceil>1 / x\<rceil> - 1))"

text \<open>Rounding to the nearest whole number, a tie going to the even one.\<close>

definition round_even :: "real \<Rightarrow> int" where
  "round_even r =
     (let f = \<lfloor>r\<rfloor>; d = r - of_int f
      in if d < 1 / 2 then f else if 1 / 2 < d then f + 1 else if even f then f else f + 1)"

text \<open>
  The double that an arithmetic operation of C returns for the exact result \<open>x\<close>, in the
  default rounding mode: the nearest number with 53 significant binary digits and an
  exponent of at least \<open>-1022\<close> (below that the spacing stays \<open>2 ^ -1074\<close>), a tie going to
  the even significand. A result that rounds to \<open>2 ^ 1024\<close> or beyond is infinite.
\<close>

definition round_double :: "real \<Rightarrow> dbl" where
  "round_double x =
     (if x = 0 then Num 0
      else
        let e = max (exponent \<bar>x\<bar>) (- 1022);
            m = round_even (x / pow2 (e - 52))
        in if 1024 \<le> e \<or> (e = 1023 \<and> \<bar>m\<bar> = 9007199254740992)
           then (if 0 < x then PInf else NInf)
           else Num (of_int m * pow2 (e - 52)))"

text \<open>\<^verbatim>\<open>a + b\<close> on doubles.\<close>

fun dbl_add :: "dbl \<Rightarrow> dbl \<Rightarrow> dbl" where
  "dbl_add (Num x) (Num y) = round_double (x + y)"
| "dbl_add NaN _ = NaN"
| "dbl_add _ NaN = NaN"
| "dbl_add PInf NInf = NaN"
| "dbl_add NInf PInf = NaN"
| "dbl_add PInf _ = PInf"
| "dbl_add _ PInf = PInf"
| "dbl_add NInf _ = NInf"
| "dbl_add _ NInf = NInf"

text \<open>
  \<^verbatim>\<open>a - b\<close> on doubles, as \<^verbatim>\<open>app_next_frame\<close> uses it: \<open>b\<close> is the delay of a frame. The
  difference of two finite values is taken exactly. Within the loop of
  \<^verbatim>\<open>app_timer_increment\<close> the delay is a whole number of the format's time units that is
  at most the timer, and the timer is a double below \<open>2 ^ 53\<close>; the difference of two such
  numbers is a double again, so C does not round there. Where C would round a difference
  (a fractional timer that is smaller than the delay), the model keeps the exact value.
\<close>

fun dbl_sub :: "dbl \<Rightarrow> dbl \<Rightarrow> dbl" where
  "dbl_sub (Num x) (Num y) = Num (x - y)"
| "dbl_sub NaN _ = NaN"
| "dbl_sub _ NaN = NaN"
| "dbl_sub PInf PInf = NaN"
| "dbl_sub NInf NInf = NaN"
| "dbl_sub PInf _ = PInf"
| "dbl_sub _ PInf = NInf"
| "dbl_sub NInf _ = NInf"
| "dbl_sub _ NInf = PInf"

text \<open>\<^verbatim>\<open>a * b\<close> on doubles; an infinity times zero is NaN.\<close>

fun dbl_mul :: "dbl \<Rightarrow> dbl \<Rightarrow> dbl" where
  "dbl_mul (Num x) (Num y) = round_double (x * y)"
| "dbl_mul NaN _ = NaN"
| "dbl_mul _ NaN = NaN"
| "dbl_mul PInf (Num y) = (if y = 0 then NaN else if 0 < y then PInf else NInf)"
| "dbl_mul NInf (Num y) = (if y = 0 then NaN else if 0 < y then NInf else PInf)"
| "dbl_mul (Num x) PInf = (if x = 0 then NaN else if 0 < x then PInf else NInf)"
| "dbl_mul (Num x) NInf = (if x = 0 then NaN else if 0 < x then NInf else PInf)"
| "dbl_mul PInf PInf = PInf"
| "dbl_mul NInf NInf = PInf"
| "dbl_mul PInf NInf = NInf"
| "dbl_mul NInf PInf = NInf"

text \<open>The comparison \<^verbatim>\<open>a >= b\<close> of C: false as soon as one side is NaN.\<close>

fun dbl_ge :: "dbl \<Rightarrow> dbl \<Rightarrow> bool" where
  "dbl_ge (Num x) (Num y) = (y \<le> x)"
| "dbl_ge NaN _ = False"
| "dbl_ge _ NaN = False"
| "dbl_ge PInf _ = True"
| "dbl_ge _ NInf = True"
| "dbl_ge _ _ = False"

text \<open>Rounding towards zero, as \<^verbatim>\<open>fmod\<close> takes the quotient.\<close>

definition trunc :: "real \<Rightarrow> int" where
  "trunc r = (if 0 \<le> r then \<lfloor>r\<rfloor> else \<lceil>r\<rceil>)"

text \<open>
  \<^verbatim>\<open>fmod(x, y)\<close> of \<^verbatim>\<open>math.h\<close>: \<open>x - n * y\<close> with \<open>n\<close> the quotient \<open>x / y\<close> truncated towards
  zero, so the result has the sign of \<open>x\<close>. The result of \<^verbatim>\<open>fmod\<close> is exact. It is NaN when
  \<open>y\<close> is zero, when \<open>x\<close> is infinite or when an argument is NaN, and \<open>x\<close> when only \<open>y\<close> is
  infinite.
\<close>

fun fmod :: "dbl \<Rightarrow> dbl \<Rightarrow> dbl" where
  "fmod (Num x) (Num y) = (if y = 0 then NaN else Num (x - of_int (trunc (x / y)) * y))"
| "fmod (Num x) PInf = Num x"
| "fmod (Num x) NInf = Num x"
| "fmod _ _ = NaN"


section \<open>The data of the viewer\<close>

type_synonym addr = nat

text \<open>
  Modelled from the spec: \<^verbatim>\<open>struct Graphic\<close> is declared outside \<^verbatim>\<open>sdlapp.c\<close>. The record has
  the fields that the two versions of \<^verbatim>\<open>sdlapp.c\<close> read: the size of the frame, its texture
  (an opaque handle of the renderer) and its delay, the display duration of the
  specification. The delay meets the timer only in arithmetic on doubles, where C converts
  it; it is kept as a real number, which covers each numeric type its declaration may give
  it.
\<close>

record Graphic =
  texture :: nat
  width :: nat
  height :: nat
  delay :: real

text \<open>
  Modelled from the spec: \<^verbatim>\<open>GraphicList\<close> is declared outside \<^verbatim>\<open>sdlapp.c\<close>. A node has the
  two fields that \<^verbatim>\<open>sdlapp.c\<close> reads: the frame (\<^verbatim>\<open>->data\<close>) and the address of the following
  node (\<^verbatim>\<open>->next\<close>). The specification makes the list circular, so no link is null.
\<close>

record GraphicListNode =
  data :: Graphic
  nxt :: addr

text \<open>
  Modelled from the spec: \<^verbatim>\<open>struct Viewer\<close> is declared outside \<^verbatim>\<open>sdlapp.c\<close>. The record has
  the fields of \<^verbatim>\<open>app->view\<close> that playback reads and writes in \<^verbatim>\<open>sdlapp.c\<close>; the
  specification names them the paused flag, the looping flag and the playback speed.
\<close>

record Viewer =
  running :: bool
  paused :: bool
  looping :: bool
  playback_speed :: dbl

text \<open>
  Modelled from the spec: \<^verbatim>\<open>struct App\<close> is declared in \<^verbatim>\<open>sdlapp.h\<close>, not in \<^verbatim>\<open>sdlapp.c\<close>. The
  record has the fields that the playback functions of \<^verbatim>\<open>sdlapp.c\<close> use, which are the state
  of the playback engine in the specification; the window, the renderer and the text
  handles are left out. The field \<open>mem\<close> is the memory that holds the nodes of the list,
  which the struct reaches through the pointers \<open>images\<close> and \<open>current_frame\<close>; it is part
  of the state so that a function which wrote a node would show it.
\<close>

record App =
  mem :: "addr \<Rightarrow> GraphicListNode"
  images :: addr
  current_frame :: addr
  timer :: dbl
  full_time :: real
  view :: Viewer
  state_text_visible :: bool

abbreviation current_data :: "App \<Rightarrow> Graphic" where
  "current_data app \<equiv> data (mem app (current_frame app))"

abbreviation current_next :: "App \<Rightarrow> addr" where
  "current_next app \<equiv> nxt (mem app (current_frame app))"


section \<open>Playback: sdlapp.c with a full time\<close>

text \<open>
  There are two versions of \<^verbatim>\<open>sdlapp.c\<close>. This section follows the one whose \<^verbatim>\<open>struct App\<close>
  has a \<^verbatim>\<open>full_time\<close> and keeps the playback flags in \<^verbatim>\<open>app->view\<close>.
\<close>

text \<open>\<^verbatim>\<open>_is_app_on_final_frame\<close>: the successor of the current node is the head of the list.\<close>

definition is_app_on_final_frame :: "App \<Rightarrow> bool" where
  "is_app_on_final_frame app = (current_next app = images app)"

text \<open>
  Modelled from the spec: \<^verbatim>\<open>viewer_should_timer_increment\<close> is called by
  \<^verbatim>\<open>app_timer_increment\<close>; its definition is not in \<^verbatim>\<open>sdlapp.c\<close>. The specification says
  of the tick ``if paused, no-op'', so the function answers whether the viewer is not paused.
\<close>

definition viewer_should_timer_increment :: "Viewer \<Rightarrow> bool" where
  "viewer_should_timer_increment v = (\<not> paused v)"

text \<open>\<^verbatim>\<open>app_next_frame\<close>: the delay of the frame that is left is taken off the timer.\<close>

definition app_next_frame :: "App \<Rightarrow> App" where
  "app_next_frame app =
     app\<lparr>timer := dbl_sub (timer app) (Num (delay (current_data app))),
         current_frame := current_next app\<rparr>"

text \<open>
  The \<^verbatim>\<open>for\<close> loop of \<^verbatim>\<open>app_timer_increment\<close>, with the flag \<^verbatim>\<open>advanced\<close> as an argument.
  The loop need not end, so the function returns an option: \<open>None\<close> is a call that never
  returns.
\<close>

partial_function (option) advance_frames :: "App \<Rightarrow> bool \<Rightarrow> (bool \<times> App) option" where
  "advance_frames app advanced =
     (if dbl_ge (timer app) (Num (delay (current_data app))) then
        (if is_app_on_final_frame app \<and> \<not> looping (view app) then Some (advanced, app)
         else advance_frames (app_next_frame app) True)
      else Some (advanced, app))"

declare advance_frames.simps [code]

definition app_timer_increment :: "App \<Rightarrow> (bool \<times> App) option" where
  "app_timer_increment app =
     (if \<not> viewer_should_timer_increment (view app) then Some (False, app)
      else advance_frames
             (app\<lparr>timer := fmod (dbl_add (timer app) (playback_speed (view app)))
                                (Num (full_time app))\<rparr>)
             False)"

text \<open>
  The \<^verbatim>\<open>while\<close> loop of \<^verbatim>\<open>app_previous_frame\<close>: walk forward until the successor of the
  current node is the node the call started from.
\<close>

partial_function (option) seek_predecessor :: "addr \<Rightarrow> App \<Rightarrow> App option" where
  "seek_predecessor current app =
     (if current_next app \<noteq> current then seek_predecessor current (app_next_frame app)
      else Some app)"

declare seek_predecessor.simps [code]

definition app_previous_frame :: "App \<Rightarrow> App option" where
  "app_previous_frame app =
     map_option (\<lambda>a. a\<lparr>timer := Num 0\<rparr>) (seek_predecessor (current_frame app) app)"

text \<open>
  The loop of \<^verbatim>\<open>app_new\<close> that adds up \<^verbatim>\<open>full_time\<close>: it runs over the nodes from the
  head and stops at the node whose successor is the head, before adding that node's delay.
\<close>

partial_function (option) sum_delays :: "(addr \<Rightarrow> GraphicListNode) \<Rightarrow> addr \<Rightarrow> addr \<Rightarrow> real \<Rightarrow> real option" where
  "sum_delays m head node acc =
     (if nxt (m node) \<noteq> head then sum_delays m head (nxt (m node)) (acc + delay (data (m node)))
      else Some acc)"

declare sum_delays.simps [code]

definition app_set_paused :: "App \<Rightarrow> bool \<Rightarrow> App" where
  "app_set_paused app p = app\<lparr>view := (view app)\<lparr>paused := p\<rparr>\<rparr>"

definition app_set_looping :: "App \<Rightarrow> bool \<Rightarrow> App" where
  "app_set_looping app l = app\<lparr>view := (view app)\<lparr>looping := l\<rparr>\<rparr>"

definition app_set_playback_speed :: "App \<Rightarrow> dbl \<Rightarrow> App" where
  "app_set_playback_speed app sp = app\<lparr>view := (view app)\<lparr>playback_speed := sp\<rparr>\<rparr>"

text \<open>
  \<^verbatim>\<open>app_new\<close>, from the list that \<^verbatim>\<open>graphiclist_new\<close> built (its memory and its head): the
  playback part of the constructor. The window, the renderer and the fonts are left out.
  The struct starts uninitialised in C; the values that \<open>paused\<close>, \<open>looping\<close> and
  \<open>playback_speed\<close> have in the record below before the three setters assign them stand
  for that and are never read. The result is \<open>None\<close> when the summing loop does not end.
\<close>

definition app_new :: "(addr \<Rightarrow> GraphicListNode) \<Rightarrow> addr \<Rightarrow> App option" where
  "app_new m head =
     (case sum_delays m head head 0 of
        None \<Rightarrow> None
      | Some ft \<Rightarrow>
          Some (app_set_playback_speed
                 (app_set_looping
                   (app_set_paused
                     \<lparr>mem = m, images = head, current_frame = head, timer = Num 0,
                      full_time = ft,
                      view = \<lparr>running = True, paused = False, looping = False,
                              playback_speed = NaN\<rparr>,
                      state_text_visible = False\<rparr>
                     False)
                   True)
                 (Num 1)))"


section \<open>Playback: sdlapp.c without a full time\<close>

text \<open>
  The other version of \<^verbatim>\<open>sdlapp.c\<close> keeps \<^verbatim>\<open>paused\<close>, \<^verbatim>\<open>looping\<close> and \<^verbatim>\<open>playback_speed\<close> in
  \<^verbatim>\<open>struct App\<close> itself; they are read here from the \<open>view\<close> record, where the first version
  has them. It has no \<^verbatim>\<open>full_time\<close>, counts the timer up by one with each tick and resets it
  with each frame. Its functions carry the suffix \<open>_000\<close>.
\<close>

definition app_next_frame_000 :: "App \<Rightarrow> App" where
  "app_next_frame_000 app = app\<lparr>current_frame := current_next app, timer := Num 0\<rparr>"

definition app_timer_increment_000 :: "App \<Rightarrow> bool \<times> App" where
  "app_timer_increment_000 app =
     (if paused (view app) then (False, app)
      else
        let image = current_data app;
            app1 = app\<lparr>timer := dbl_add (timer app) (Num 1)\<rparr>
        in if dbl_ge (dbl_mul (timer app1) (playback_speed (view app1))) (Num (delay image)) then
             (if \<not> looping (view app1) \<and> current_next app1 = images app1 then (False, app1)
              else (True, app_next_frame_000 app1))
           else (False, app1))"


section \<open>The circular list and the words of the specification\<close>

text \<open>
  \<open>segment m p as q\<close>: following the \<^verbatim>\<open>next\<close> links from the node \<open>p\<close> visits the nodes \<open>as\<close>
  in this order and arrives at \<open>q\<close>.
\<close>

fun segment :: "(addr \<Rightarrow> GraphicListNode) \<Rightarrow> addr \<Rightarrow> addr list \<Rightarrow> addr \<Rightarrow> bool" where
  "segment m p [] q = (p = q)"
| "segment m p (a # as) q = (p = a \<and> segment m (nxt (m a)) as q)"

text \<open>
  Modelled from the spec: \<^verbatim>\<open>graphiclist_new\<close>, which builds the list of \<^verbatim>\<open>app.images\<close>, is
  not defined in \<^verbatim>\<open>sdlapp.c\<close>. The specification says that the blocks form a cyclic
  singly-linked ordered sequence in which the successor of the last block is the first
  block, and that there is at least one block. \<open>graphic_cycle m head ps\<close> says so of the
  list with head \<open>head\<close> in the memory \<open>m\<close>: \<open>ps\<close> are the addresses of its blocks in order.
\<close>

definition graphic_cycle :: "(addr \<Rightarrow> GraphicListNode) \<Rightarrow> addr \<Rightarrow> addr list \<Rightarrow> bool" where
  "graphic_cycle m head ps = (ps \<noteq> [] \<and> distinct ps \<and> segment m head ps head)"

definition block_delay :: "(addr \<Rightarrow> GraphicListNode) \<Rightarrow> addr \<Rightarrow> real" where
  "block_delay m p = delay (data (m p))"

text \<open>
  The condition under which the loop of the tick goes round once more, in the words of the
  specification: the timer has reached the delay of the current block, and it is not the
  case that the current block is the last one while looping is off.
\<close>

definition tick_continues :: "App \<Rightarrow> bool" where
  "tick_continues app =
     (dbl_ge (timer app) (Num (delay (current_data app)))
      \<and> \<not> (is_app_on_final_frame app \<and> \<not> looping (view app)))"

text \<open>
  The first step of a tick that is not paused, in the words of the specification:
  \<open>timer = (timer + playback_speed) mod total_cycle_time\<close>, the remainder being that of
  \<^verbatim>\<open>fmod\<close>.
\<close>

definition tick_start :: "App \<Rightarrow> App" where
  "tick_start app =
     app\<lparr>timer := fmod (dbl_add (timer app) (playback_speed (view app))) (Num (full_time app))\<rparr>"

text \<open>A run of \<open>n\<close> ticks, one after the other; \<open>None\<close> when one of them does not return.\<close>

fun ticks :: "nat \<Rightarrow> App \<Rightarrow> App option" where
  "ticks 0 app = Some app"
| "ticks (Suc n) app =
     (case app_timer_increment app of None \<Rightarrow> None | Some (advanced, app') \<Rightarrow> ticks n app')"


section \<open>The LZW decoder\<close>























section \<open>An animation of three frames\<close>

text \<open>
  Three frames at the addresses 0, 1 and 2 with the delays 10, 20 and 30; the successor of
  the frame at 2 is the frame at 0.
\<close>

definition demo_mem :: "addr \<Rightarrow> GraphicListNode" where
  "demo_mem a =
     \<lparr>data = \<lparr>texture = a, width = 4, height = 2,
              delay = (if a = 0 then 10 else if a = 1 then 20 else 30)\<rparr>,
      nxt = (if a = 2 then 0 else a + 1)\<rparr>"

definition demo_app :: App where
  "demo_app =
     \<lparr>mem = demo_mem, images = 0, current_frame = 0, timer = Num 0, full_time = 30,
      view = \<lparr>running = True, paused = False, looping = True, playback_speed = Num 1\<rparr>,
      state_text_visible = False\<rparr>"


text \<open>The same animation one tick before the first frame is due.\<close>

definition demo_due :: App where
  "demo_due = demo_app\<lparr>timer := Num 9\<rparr>"

text \<open>The same animation, paused.\<close>

definition demo_paused :: App where
  "demo_paused = demo_app\<lparr>view := (view demo_app)\<lparr>paused := True\<rparr>\<rparr>"


text \<open>The same animation on its last frame, with looping off.\<close>

definition demo_final :: App where
  "demo_final =
     demo_app\<lparr>current_frame := 2, timer := Num 29,
              view := (view demo_app)\<lparr>looping := False\<rparr>\<rparr>"


text \<open>The same animation on its second frame.\<close>

definition demo_second :: App where
  "demo_second = demo_app\<lparr>current_frame := 1, timer := Num 7\<rparr>"




section \<open>Whole numbers are not rounded\<close>

lemma bit_length_pos: "0 < n \<Longrightarrow> 0 < bit_length n"
proof (induction n rule: bit_length.induct)
  case (1 n)
  show ?case
  proof (cases "n div 2 \<le> 0")
    case True
    then have "bit_length (n div 2) = 0" by (subst bit_length.simps) simp
    with "1.prems" show ?thesis by (subst bit_length.simps) simp
  next
    case False
    with "1.IH" "1.prems" have "0 < bit_length (n div 2)" by simp
    with "1.prems" show ?thesis by (subst bit_length.simps) simp
  qed
qed

lemma bit_length_bounds:
  "0 < n \<Longrightarrow> 2 ^ nat (bit_length n - 1) \<le> n \<and> n < 2 ^ nat (bit_length n)"
proof (induction n rule: bit_length.induct)
  case (1 n)
  let ?m = "n div 2"
  have bl: "bit_length n = bit_length ?m + 1"
    using "1.prems" by (subst bit_length.simps) simp
  show ?case
  proof (cases "?m \<le> 0")
    case True
    with "1.prems" have "n = 1" by linarith
    moreover have "bit_length ?m = 0" using True by (subst bit_length.simps) simp
    then have "bit_length n = 1" by (simp add: bl)
    ultimately show ?thesis by simp
  next
    case False
    then have m: "0 < ?m" by simp
    with "1.IH" "1.prems" have ih: "2 ^ nat (bit_length ?m - 1) \<le> ?m" "?m < 2 ^ nat (bit_length ?m)"
      by simp_all
    have bp: "0 < bit_length ?m" using m by (rule bit_length_pos)
    then have split: "(2::int) ^ nat (bit_length ?m) = 2 * 2 ^ nat (bit_length ?m - 1)"
      by (metis Suc_nat_eq_nat_zadd1 add.commute diff_add_cancel power_Suc zle_diff1_eq)
    have lo: "2 * ?m \<le> n" and hi: "n \<le> 2 * ?m + 1" by linarith+
    have "2 ^ nat (bit_length ?m) \<le> n" using ih(1) lo split by linarith
    moreover have "n < 2 * 2 ^ nat (bit_length ?m)" using ih(2) hi by linarith
    moreover have "nat (bit_length ?m + 1) = Suc (nat (bit_length ?m))" using bp by simp
    ultimately show ?thesis by (simp add: bl)
  qed
qed

lemma round_even_of_int: "round_even (of_int j) = j"
  by (simp add: round_even_def)

lemma exponent_of_int: "0 < a \<Longrightarrow> exponent (of_int a) = bit_length a - 1"
  by (simp add: exponent_def)

text \<open>A whole number below \<open>2 ^ 53\<close> in magnitude is a double: it is not rounded.\<close>

lemma round_double_of_int:
  assumes "\<bar>k\<bar> < 2 ^ 53"
  shows "round_double (of_int k) = Num (of_int k)"
proof (cases "k = 0")
  case True
  then show ?thesis by (simp add: round_double_def)
next
  case False
  define e where "e = bit_length \<bar>k\<bar> - 1"
  from False have a: "0 < \<bar>k\<bar>" by simp
  have ex: "exponent \<bar>of_int k :: real\<bar> = e"
    using exponent_of_int [OF a] by (simp add: e_def)
  from bit_length_bounds [OF a] have lo: "2 ^ nat e \<le> \<bar>k\<bar>" by (simp add: e_def)
  have e0: "0 \<le> e" using bit_length_pos [OF a] by (simp add: e_def)
  have e52: "e \<le> 52"
  proof (rule ccontr)
    assume "\<not> e \<le> 52"
    then have "53 \<le> nat e" by simp
    then have "(2::int) ^ 53 \<le> 2 ^ nat e" by (rule power_increasing) simp
    with lo assms show False by linarith
  qed
  define j where "j = nat (52 - e)"
  define q where "q = pow2 (e - 52)"
  have q: "q = 1 / 2 ^ j"
    using e52 by (auto simp: q_def j_def pow2_def)
  have quot: "(of_int k :: real) / q = of_int (k * 2 ^ j)"
    unfolding q by simp
  have m: "round_even ((of_int k :: real) / q) = k * 2 ^ j"
    unfolding quot by (rule round_even_of_int)
  have undo: "of_int (k * 2 ^ j) * q = (of_int k :: real)"
    unfolding q by simp
  have mx: "max e (- 1022) = e" using e0 by simp
  have "round_double (of_int k)
          = (if 1024 \<le> e \<or> (e = 1023 \<and> \<bar>round_even (of_int k / q)\<bar> = 9007199254740992)
             then (if 0 < (of_int k :: real) then PInf else NInf)
             else Num (of_int (round_even (of_int k / q)) * q))"
    unfolding round_double_def Let_def ex mx q_def [symmetric] using False by simp
  also have "\<dots> = Num (of_int (round_even (of_int k / q)) * q)"
    using e52 by simp
  also have "\<dots> = Num (of_int k)"
    by (simp only: m undo)
  finally show ?thesis .
qed

lemma round_double_demo:
  "round_double 10 = Num 10" "round_double 30 = Num 30" "round_double 55 = Num 55"
  using round_double_of_int [of 10] round_double_of_int [of 30] round_double_of_int [of 55]
  by simp_all

text \<open>\<^verbatim>\<open>fmod\<close> by a finite divisor is never infinite.\<close>

lemma fmod_finite: "fmod a (Num y) \<noteq> PInf" "fmod a (Num y) \<noteq> NInf"
  by (cases a; simp)+


section \<open>The loop of the tick as an iteration\<close>

lemma advance_frames_unfold:
  "advance_frames app adv =
     (if tick_continues app then advance_frames (app_next_frame app) True else Some (adv, app))"
  by (subst advance_frames.simps) (simp add: tick_continues_def)

lemma advance_frames_iterate:
  "(\<And>k. k < n \<Longrightarrow> tick_continues ((app_next_frame ^^ k) app)) \<Longrightarrow>
     advance_frames app adv = advance_frames ((app_next_frame ^^ n) app) (adv \<or> 0 < n)"
proof (induction n arbitrary: app adv)
  case 0
  then show ?case by simp
next
  case (Suc n)
  have first: "tick_continues app" using Suc.prems [of 0] by simp
  have rest: "\<And>k. k < n \<Longrightarrow> tick_continues ((app_next_frame ^^ k) (app_next_frame app))"
    using Suc.prems [of "Suc _"] by (simp add: funpow_swap1)
  have "advance_frames app adv = advance_frames (app_next_frame app) True"
    using first by (subst advance_frames_unfold) simp
  also have "\<dots> = advance_frames ((app_next_frame ^^ n) (app_next_frame app)) (True \<or> 0 < n)"
    by (rule Suc.IH [OF rest])
  finally show ?case by (simp add: funpow_swap1)
qed

lemma advance_frames_stops:
  assumes "\<And>k. k < n \<Longrightarrow> tick_continues ((app_next_frame ^^ k) app)"
    and "\<not> tick_continues ((app_next_frame ^^ n) app)"
  shows "advance_frames app adv = Some (adv \<or> 0 < n, (app_next_frame ^^ n) app)"
proof -
  have "advance_frames app adv = advance_frames ((app_next_frame ^^ n) app) (adv \<or> 0 < n)"
    using assms(1) by (rule advance_frames_iterate)
  also have "\<dots> = Some (adv \<or> 0 < n, (app_next_frame ^^ n) app)"
    using assms(2) by (subst advance_frames_unfold) simp
  finally show ?thesis .
qed

lemma advance_frames_returns:
  "advance_frames app adv = Some res \<Longrightarrow>
     \<exists>n. (\<forall>k<n. tick_continues ((app_next_frame ^^ k) app))
        \<and> \<not> tick_continues ((app_next_frame ^^ n) app)
        \<and> res = (adv \<or> 0 < n, (app_next_frame ^^ n) app)"
proof (induction rule: advance_frames.raw_induct [rotated 1, consumes 1])
  case (1 advance_frames app adv res)
  show ?case
  proof (cases "tick_continues app")
    case False
    then have "res = (adv, app)"
      using 1(2) by (auto simp: tick_continues_def split: if_splits)
    with False show ?thesis by (intro exI [of _ 0]) simp
  next
    case True
    then have "advance_frames (app_next_frame app) True = Some res"
      using 1(2) by (auto simp: tick_continues_def split: if_splits)
    from 1(1) [OF this] obtain n where n:
      "\<forall>k<n. tick_continues ((app_next_frame ^^ k) (app_next_frame app))"
      "\<not> tick_continues ((app_next_frame ^^ n) (app_next_frame app))"
      "res = (True \<or> 0 < n, (app_next_frame ^^ n) (app_next_frame app))"
      by blast
    have "\<forall>k<Suc n. tick_continues ((app_next_frame ^^ k) app)"
    proof (intro allI impI)
      fix k assume "k < Suc n"
      then show "tick_continues ((app_next_frame ^^ k) app)"
        using True n(1) by (cases k) (simp_all add: funpow_swap1)
    qed
    with n(2,3) show ?thesis
      by (intro exI [of _ "Suc n"]) (simp add: funpow_swap1)
  qed
qed


section \<open>Walking the circular list\<close>

lemma segment_append:
  "segment m p (as @ bs) q \<longleftrightarrow> (\<exists>r. segment m p as r \<and> segment m r bs q)"
  by (induction as arbitrary: p) auto

lemma segment_start: "segment m p as q \<Longrightarrow> as \<noteq> [] \<Longrightarrow> hd as = p"
  by (cases as) auto

lemma segment_successor:
  "segment m p bs q \<Longrightarrow> b \<in> set bs \<Longrightarrow> nxt (m b) \<in> set (tl bs) \<union> {q}"
proof (induction bs arbitrary: p)
  case Nil
  then show ?case by simp
next
  case (Cons a bs)
  from Cons.prems(1) have seg: "segment m (nxt (m a)) bs q" by simp
  show ?case
  proof (cases "b = a")
    case True
    show ?thesis
    proof (cases bs)
      case Nil
      with seg True show ?thesis by simp
    next
      case (Cons c cs)
      with seg have "nxt (m a) = c" by simp
      with Cons True show ?thesis by simp
    qed
  next
    case False
    with Cons.prems(2) have "b \<in> set bs" by simp
    from Cons.IH [OF seg this] have "nxt (m b) \<in> set (tl bs) \<union> {q}" .
    moreover have "set (tl bs) \<subseteq> set bs" by (cases bs) auto
    ultimately show ?thesis by auto
  qed
qed

lemma cycle_rotate:
  assumes "graphic_cycle m head ps" and "c \<in> set ps"
  shows "\<exists>xs ys. ps = xs @ c # ys \<and> graphic_cycle m c (c # ys @ xs)"
proof -
  from assms(2) obtain xs ys where ps: "ps = xs @ c # ys"
    by (auto dest: split_list)
  from assms(1) have dist: "distinct ps" and seg: "segment m head ps head"
    by (simp_all add: graphic_cycle_def)
  from seg obtain r where r: "segment m head xs r" "segment m r (c # ys) head"
    unfolding ps segment_append by blast
  then have rc: "r = c" by simp
  from r have "segment m c ((c # ys) @ xs) c"
    unfolding segment_append rc by blast
  moreover from dist have "distinct (c # ys @ xs)"
    unfolding ps by auto
  ultimately have "graphic_cycle m c (c # ys @ xs)"
    by (simp add: graphic_cycle_def)
  with ps show ?thesis by blast
qed

lemma app_next_frame_frame:
  "mem (app_next_frame a) = mem a" "images (app_next_frame a) = images a"
  "full_time (app_next_frame a) = full_time a" "view (app_next_frame a) = view a"
  "state_text_visible (app_next_frame a) = state_text_visible a"
  by (simp_all add: app_next_frame_def)

lemma advances_frame:
  "(app_next_frame ^^ n) a
     = a\<lparr>timer := timer ((app_next_frame ^^ n) a),
         current_frame := current_frame ((app_next_frame ^^ n) a)\<rparr>"
proof (induction n)
  case 0
  show ?case by simp
next
  case (Suc n)
  have "(app_next_frame ^^ Suc n) a = app_next_frame ((app_next_frame ^^ n) a)" by simp
  also have "\<dots> = ((app_next_frame ^^ n) a)\<lparr>timer := timer ((app_next_frame ^^ Suc n) a),
         current_frame := current_frame ((app_next_frame ^^ Suc n) a)\<rparr>"
    by (simp add: app_next_frame_def)
  also have "\<dots> = a\<lparr>timer := timer ((app_next_frame ^^ Suc n) a),
         current_frame := current_frame ((app_next_frame ^^ Suc n) a)\<rparr>"
    by (subst Suc.IH) simp
  finally show ?case .
qed

lemma advances_mem: "mem ((app_next_frame ^^ n) a) = mem a"
  by (subst advances_frame) simp

lemma walk_current:
  "segment (mem app) (current_frame app) as q \<Longrightarrow>
     current_frame ((app_next_frame ^^ length as) app) = q"
proof (induction as arbitrary: app)
  case Nil
  then show ?case by simp
next
  case (Cons a as)
  from Cons.prems have "segment (mem (app_next_frame app)) (current_frame (app_next_frame app)) as q"
    by (simp add: app_next_frame_def)
  from Cons.IH [OF this] show ?case by (simp add: funpow_swap1)
qed

lemma walk_timer:
  "segment (mem app) (current_frame app) as q \<Longrightarrow> timer app = Num t \<Longrightarrow>
     timer ((app_next_frame ^^ length as) app)
       = Num (t - sum_list (map (block_delay (mem app)) as))"
proof (induction as arbitrary: app t)
  case Nil
  then show ?case by simp
next
  case (Cons a as)
  let ?b = "app_next_frame app"
  from Cons.prems have seg: "segment (mem ?b) (current_frame ?b) as q"
    and tm: "timer ?b = Num (t - block_delay (mem app) a)"
    by (simp_all add: app_next_frame_def block_delay_def)
  from Cons.IH [OF seg tm] show ?case
    by (simp add: funpow_swap1 app_next_frame_frame)
qed

lemma seek_walk:
  "segment (mem app) (current_frame app) bs q \<Longrightarrow>
   (\<forall>b\<in>set bs. nxt (mem app b) \<noteq> target) \<Longrightarrow> nxt (mem app q) = target \<Longrightarrow>
     seek_predecessor target app = Some ((app_next_frame ^^ length bs) app)"
proof (induction bs arbitrary: app)
  case Nil
  then show ?case by (subst seek_predecessor.simps) simp
next
  case (Cons a bs)
  let ?b = "app_next_frame app"
  from Cons.prems have cur: "current_frame app = a" and ne: "nxt (mem app a) \<noteq> target"
    by simp_all
  from Cons.prems have seg: "segment (mem ?b) (current_frame ?b) bs q"
    and others: "\<forall>b\<in>set bs. nxt (mem ?b b) \<noteq> target" and last: "nxt (mem ?b q) = target"
    by (simp_all add: app_next_frame_def)
  have "seek_predecessor target app = seek_predecessor target ?b"
    using cur ne by (subst seek_predecessor.simps) simp
  also have "\<dots> = Some ((app_next_frame ^^ length bs) ?b)"
    by (rule Cons.IH [OF seg others last])
  finally show ?case by (simp add: funpow_swap1)
qed

lemma sum_delays_segment:
  "segment m a (a # as) head \<Longrightarrow> head \<notin> set as \<Longrightarrow>
     sum_delays m head a acc = Some (acc + sum_list (map (block_delay m) (butlast (a # as))))"
proof (induction as arbitrary: a acc)
  case Nil
  then show ?case by (subst sum_delays.simps) simp
next
  case (Cons b bs)
  from Cons.prems have nb: "nxt (m a) = b" and seg: "segment m b (b # bs) head"
    and nh: "b \<noteq> head" "head \<notin> set bs"
    by auto
  have "sum_delays m head a acc = sum_delays m head b (acc + block_delay m a)"
    using nb nh(1) by (subst sum_delays.simps) (simp add: block_delay_def)
  also have "\<dots> = Some (acc + block_delay m a + sum_list (map (block_delay m) (butlast (b # bs))))"
    by (rule Cons.IH [OF seg nh(2)])
  finally show ?case by simp
qed

lemma sum_delays_cycle:
  assumes "graphic_cycle m head ps"
  shows "sum_delays m head head 0 = Some (sum_list (map (block_delay m) (butlast ps)))"
proof -
  from assms obtain as where ps: "ps = head # as"
    by (cases ps) (auto simp: graphic_cycle_def)
  with assms have "segment m head (head # as) head" "head \<notin> set as"
    by (auto simp: graphic_cycle_def)
  from sum_delays_segment [OF this, of 0] show ?thesis by (simp add: ps)
qed

lemma closing_block:
  assumes "graphic_cycle m head ps"
  shows "filter (\<lambda>p. nxt (m p) \<noteq> head) ps = butlast ps"
    and "nxt (m (last ps)) = head"
proof -
  from assms have ne: "ps \<noteq> []" and dist: "distinct ps" and seg: "segment m head ps head"
    by (simp_all add: graphic_cycle_def)
  from ne obtain bs l where ps: "ps = bs @ [l]"
    by (cases ps rule: rev_cases) auto
  from seg obtain r where r: "segment m head bs r" "segment m r [l] head"
    unfolding ps segment_append by blast
  then show "nxt (m (last ps)) = head" by (simp add: ps)
  have hd: "hd ps = head" using seg ne by (rule segment_start)
  have "\<forall>b\<in>set bs. nxt (m b) \<noteq> head"
  proof
    fix b assume b: "b \<in> set bs"
    from segment_successor [OF r(1) b] r(2) have "nxt (m b) \<in> set (tl bs) \<union> {l}" by simp
    moreover from b have "bs \<noteq> []" by auto
    then have "hd bs = head" using hd ps by simp
    then have "head \<notin> set (tl bs) \<union> {l}"
      using dist \<open>bs \<noteq> []\<close> unfolding ps by (cases bs) auto
    ultimately show "nxt (m b) \<noteq> head" by auto
  qed
  moreover from r(2) have "nxt (m l) = head" by simp
  ultimately show "filter (\<lambda>p. nxt (m p) \<noteq> head) ps = butlast ps"
    by (simp add: ps)
qed


lemma cycle_successors_differ:
  assumes "graphic_cycle m c (c # rest)" and "b \<in> set rest"
  shows "nxt (m b) \<noteq> nxt (m c)"
proof -
  from assms(1) have dist: "distinct (c # rest)" and seg: "segment m (nxt (m c)) rest c"
    by (simp_all add: graphic_cycle_def)
  from assms(2) have ne: "rest \<noteq> []" by auto
  have hd: "hd rest = nxt (m c)" using seg ne by (rule segment_start)
  from segment_successor [OF seg assms(2)] have "nxt (m b) \<in> set (tl rest) \<union> {c}" .
  moreover have "hd rest \<notin> set (tl rest) \<union> {c}"
    using dist ne by (cases rest) auto
  ultimately show ?thesis using hd by auto
qed

text \<open>The remainder of \<^verbatim>\<open>fmod\<close> by a positive divisor stays below the divisor.\<close>

lemma fmod_below:
  assumes "0 < y" and "fmod a (Num y) = Num r"
  shows "r < y"
proof -
  from assms obtain x where a: "a = Num x" by (cases a) auto
  let ?q = "x / y"
  have "?q - 1 < of_int (trunc ?q)"
    unfolding trunc_def by (auto intro: order_less_le_trans [OF _ le_of_int_ceiling])
  then have "(?q - 1) * y < of_int (trunc ?q) * y"
    using assms(1) by (simp only: mult_less_cancel_right_pos)
  moreover have "(?q - 1) * y = x - y"
    using assms(1) by (simp add: field_simps)
  ultimately have "x - of_int (trunc ?q) * y < y"
    by linarith
  with assms a show ?thesis by auto
qed


section \<open>Facts about the three frames\<close>

lemma demo_cycle: "graphic_cycle demo_mem 0 [0, 1, 2]"
  by (simp add: graphic_cycle_def demo_mem_def)

lemma demo_due_tick:
  "app_timer_increment demo_due = Some (True, demo_due\<lparr>timer := Num 0, current_frame := 1\<rparr>)"
proof -
  have start: "tick_start demo_due = demo_due\<lparr>timer := Num 10\<rparr>"
    by (simp add: tick_start_def demo_due_def demo_app_def trunc_def round_double_demo)
  have step: "app_next_frame (demo_due\<lparr>timer := Num 10\<rparr>)
                = demo_due\<lparr>timer := Num 0, current_frame := 1\<rparr>"
    by (simp add: app_next_frame_def demo_due_def demo_app_def demo_mem_def)
  have c0: "tick_continues (demo_due\<lparr>timer := Num 10\<rparr>)"
    by (simp add: tick_continues_def is_app_on_final_frame_def demo_due_def demo_app_def
        demo_mem_def)
  have c1: "\<not> tick_continues (demo_due\<lparr>timer := Num 0, current_frame := 1\<rparr>)"
    by (simp add: tick_continues_def is_app_on_final_frame_def demo_due_def demo_app_def
        demo_mem_def)
  have "advance_frames (tick_start demo_due) False
          = Some (False \<or> 0 < (1::nat), (app_next_frame ^^ 1) (tick_start demo_due))"
    using c0 c1 by (intro advance_frames_stops) (simp_all add: start step)
  then show ?thesis
    by (simp add: app_timer_increment_def viewer_should_timer_increment_def
        tick_start_def [symmetric] start step) (simp add: demo_due_def demo_app_def)
qed


section \<open>What a tick does\<close>




section \<open>The paused viewer\<close>

text \<open>
  C8. While playback is paused, a tick changes nothing and reports that no frame was
  advanced: the timer, the current frame and every other field are as before, and the
  result is false. This holds of both versions of \<^verbatim>\<open>app_timer_increment\<close>.
\<close>

theorem paused_tick_is_noop:
  "paused (view app) \<Longrightarrow>
     app_timer_increment app = Some (False, app) \<and> app_timer_increment_000 app = (False, app)"
  by (simp add: app_timer_increment_def viewer_should_timer_increment_def
      app_timer_increment_000_def)

theorem paused_tick_is_noop_witness:
  "paused (view demo_paused)
   \<and> app_timer_increment demo_paused = Some (False, demo_paused)
   \<and> app_timer_increment_000 demo_paused = (False, demo_paused)"
proof -
  have p: "paused (view demo_paused)"
    by (simp add: demo_paused_def)
  from paused_tick_is_noop [OF p] p show ?thesis by simp
qed

section \<open>What a tick leaves alone\<close>

text \<open>
  C10. A call of \<^verbatim>\<open>app_timer_increment\<close> that returns has changed at most the timer and the
  current frame: the state after the call is the state before it with these two fields
  replaced. In particular the paused flag, the looping flag, the playback speed, the full
  time, the head of the list and the memory of the list (links, delays and frame data) are
  unchanged, whatever the result.
\<close>

theorem tick_changes_only_timer_and_current:
  assumes "app_timer_increment app = Some (advanced, app')"
  shows "app' = app\<lparr>timer := timer app', current_frame := current_frame app'\<rparr>
         \<and> paused (view app') = paused (view app)
         \<and> looping (view app') = looping (view app)
         \<and> playback_speed (view app') = playback_speed (view app)
         \<and> full_time app' = full_time app
         \<and> images app' = images app
         \<and> mem app' = mem app"
proof -
  have eq: "app' = app\<lparr>timer := timer app', current_frame := current_frame app'\<rparr>"
  proof (cases "viewer_should_timer_increment (view app)")
    case False
    with assms show ?thesis by (simp add: app_timer_increment_def)
  next
    case True
    with assms have "advance_frames (tick_start app) False = Some (advanced, app')"
      by (simp add: app_timer_increment_def tick_start_def)
    from advance_frames_returns [OF this] obtain n
      where n: "app' = (app_next_frame ^^ n) (tick_start app)" by auto
    have "app' = (tick_start app)\<lparr>timer := timer app', current_frame := current_frame app'\<rparr>"
      unfolding n by (rule advances_frame)
    then show ?thesis by (simp add: tick_start_def)
  qed
  have "view app' = view app" "full_time app' = full_time app" "images app' = images app"
    "mem app' = mem app"
    by (subst eq, simp)+
  with eq show ?thesis by simp
qed

theorem tick_changes_only_timer_and_current_witness:
  "app_timer_increment demo_due = Some (True, demo_due\<lparr>timer := Num 0, current_frame := 1\<rparr>)
   \<and> full_time (demo_due\<lparr>timer := Num 0, current_frame := 1\<rparr>) = full_time demo_due
   \<and> mem (demo_due\<lparr>timer := Num 0, current_frame := 1\<rparr>) = mem demo_due
   \<and> view (demo_due\<lparr>timer := Num 0, current_frame := 1\<rparr>) = view demo_due"
  using tick_changes_only_timer_and_current [OF demo_due_tick] demo_due_tick by simp


section \<open>Staying on the final frame\<close>

lemma final_frame_tick:
  assumes "\<not> looping (view app)" and "is_app_on_final_frame app"
  shows "\<exists>advanced app'. app_timer_increment app = Some (advanced, app')
           \<and> current_frame app' = current_frame app \<and> \<not> looping (view app')
           \<and> is_app_on_final_frame app'"
proof (cases "viewer_should_timer_increment (view app)")
  case False
  with assms show ?thesis by (auto simp: app_timer_increment_def)
next
  case True
  have "\<not> tick_continues (tick_start app)"
    using assms by (simp add: tick_continues_def tick_start_def is_app_on_final_frame_def)
  then have "advance_frames (tick_start app) False = Some (False, tick_start app)"
    by (subst advance_frames_unfold) simp
  with True assms show ?thesis
    by (auto simp: app_timer_increment_def tick_start_def is_app_on_final_frame_def)
qed

text \<open>
  C3. With looping off, once the current frame is the final one (its successor is the head
  of the list), any number of ticks returns and leaves the current frame where it is.
\<close>

theorem final_frame_is_kept:
  assumes "\<not> looping (view app)" and "is_app_on_final_frame app"
  shows "\<exists>app'. ticks n app = Some app' \<and> current_frame app' = current_frame app"
  using assms
proof (induction n arbitrary: app)
  case 0
  then show ?case by simp
next
  case (Suc n)
  from final_frame_tick [OF Suc.prems] obtain advanced app1
    where t: "app_timer_increment app = Some (advanced, app1)"
      and same: "current_frame app1 = current_frame app"
      and inv: "\<not> looping (view app1)" "is_app_on_final_frame app1"
    by blast
  from Suc.IH [OF inv] obtain app' where "ticks n app1 = Some app'"
    "current_frame app' = current_frame app1" by blast
  with t same show ?case by simp
qed

theorem final_frame_is_kept_witness:
  "\<not> looping (view demo_final) \<and> is_app_on_final_frame demo_final
   \<and> (\<exists>app'. ticks 5 demo_final = Some app' \<and> current_frame app' = 2)"
proof -
  have a: "\<not> looping (view demo_final)" and b: "is_app_on_final_frame demo_final"
    by (simp_all add: demo_final_def demo_app_def demo_mem_def is_app_on_final_frame_def)
  have c: "current_frame demo_final = 2" by (simp add: demo_final_def)
  from final_frame_is_kept [OF a b, of 5] a b c show ?thesis by simp
qed


section \<open>The next frame\<close>




section \<open>The state after construction\<close>

text \<open>
  C2. For a circular list of at least one block, \<^verbatim>\<open>app_new\<close> returns a state whose current
  frame is the first block, whose timer is 0 and whose \<^verbatim>\<open>full_time\<close> is the sum of the delays
  of every block except the one whose successor is the first block; the blocks that are
  added up are all blocks but the last.
\<close>

theorem app_new_initial_state:
  assumes "graphic_cycle m head ps"
  shows "\<exists>app. app_new m head = Some app
           \<and> current_frame app = hd ps \<and> images app = hd ps \<and> timer app = Num 0
           \<and> full_time app
               = sum_list (map (block_delay m) (filter (\<lambda>p. nxt (m p) \<noteq> hd ps) ps))
           \<and> filter (\<lambda>p. nxt (m p) \<noteq> hd ps) ps = butlast ps"
proof -
  from assms have hd: "hd ps = head"
    by (auto simp: graphic_cycle_def intro: segment_start)
  have "sum_delays m head head 0 = Some (sum_list (map (block_delay m) (butlast ps)))"
    using assms by (rule sum_delays_cycle)
  moreover have "filter (\<lambda>p. nxt (m p) \<noteq> head) ps = butlast ps"
    using assms by (rule closing_block)
  ultimately show ?thesis
    by (simp add: app_new_def hd app_set_paused_def app_set_looping_def
        app_set_playback_speed_def)
qed

theorem app_new_initial_state_witness:
  "graphic_cycle demo_mem 0 [0, 1, 2]
   \<and> (\<exists>app. app_new demo_mem 0 = Some app \<and> current_frame app = 0 \<and> timer app = Num 0
         \<and> full_time app = 30)"
  using app_new_initial_state [OF demo_cycle] demo_cycle
  by (auto simp: block_delay_def demo_mem_def)

section \<open>Going round the list\<close>

text \<open>
  C5. In a circular list of \<open>N\<close> blocks, from any block of the list, \<open>N\<close> calls of
  \<^verbatim>\<open>app_next_frame\<close> lead back to the block they started from; and \<^verbatim>\<open>app_previous_frame\<close>
  called right after \<^verbatim>\<open>app_next_frame\<close> returns, with the current frame the original block
  and the timer 0.
\<close>

theorem cyclic_navigation:
  assumes "graphic_cycle (mem app) (images app) ps" and "current_frame app \<in> set ps"
  shows "current_frame ((app_next_frame ^^ length ps) app) = current_frame app
         \<and> (\<exists>app'. app_previous_frame (app_next_frame app) = Some app'
               \<and> current_frame app' = current_frame app \<and> timer app' = Num 0)"
proof -
  let ?m = "mem app" and ?c = "current_frame app"
  from cycle_rotate [OF assms] obtain xs ys
    where ps: "ps = xs @ ?c # ys" and cyc: "graphic_cycle ?m ?c (?c # ys @ xs)"
    by blast
  let ?rest = "ys @ xs"
  from cyc have seg: "segment ?m ?c (?c # ?rest) ?c"
    by (simp add: graphic_cycle_def)
  have "current_frame ((app_next_frame ^^ length (?c # ?rest)) app) = ?c"
    using seg by (rule walk_current)
  then have round: "current_frame ((app_next_frame ^^ length ps) app) = ?c"
    by (simp add: ps add.commute)
  let ?b = "app_next_frame app"
  have mem_b: "mem ?b = ?m" and cur_b: "current_frame ?b = nxt (?m ?c)"
    by (simp_all add: app_next_frame_def)
  from seg have seg_b: "segment (mem ?b) (current_frame ?b) ?rest ?c"
    by (simp add: mem_b cur_b)
  have others: "\<forall>b\<in>set ?rest. nxt (mem ?b b) \<noteq> current_frame ?b"
    unfolding mem_b cur_b using cycle_successors_differ [OF cyc] by blast
  have last: "nxt (mem ?b ?c) = current_frame ?b"
    by (simp add: mem_b cur_b)
  have found: "seek_predecessor (current_frame ?b) ?b
                 = Some ((app_next_frame ^^ length ?rest) ?b)"
    using seg_b others last by (rule seek_walk)
  have returned: "current_frame ((app_next_frame ^^ length ?rest) ?b) = ?c"
    using seg_b by (rule walk_current)
  from found returned have "\<exists>app'. app_previous_frame ?b = Some app'
      \<and> current_frame app' = ?c \<and> timer app' = Num 0"
    by (simp add: app_previous_frame_def)
  with round show ?thesis by blast
qed

theorem cyclic_navigation_witness:
  "graphic_cycle (mem demo_second) (images demo_second) [0, 1, 2]
   \<and> current_frame demo_second \<in> set [0, 1, 2]
   \<and> current_frame ((app_next_frame ^^ 3) demo_second) = 1
   \<and> (\<exists>app'. app_previous_frame (app_next_frame demo_second) = Some app'
         \<and> current_frame app' = 1 \<and> timer app' = Num 0)"
proof -
  have a: "graphic_cycle (mem demo_second) (images demo_second) [0, 1, 2]"
    using demo_cycle by (simp add: demo_second_def demo_app_def)
  have b: "current_frame demo_second \<in> set [0, 1, 2]"
    by (simp add: demo_second_def)
  have c: "current_frame demo_second = 1" by (simp add: demo_second_def)
  from cyclic_navigation [OF a b] a b c show ?thesis by (simp add: eval_nat_numeral)
qed


section \<open>The tick returns\<close>

text \<open>The state that \<^verbatim>\<open>app_new\<close> returns holds the total that its loop computed for the list.\<close>

lemma app_new_full_time:
  "app_new m head = Some app \<Longrightarrow>
     mem app = m \<and> images app = head
     \<and> sum_delays (mem app) (images app) (images app) 0 = Some (full_time app)"
  by (auto simp: app_new_def app_set_paused_def app_set_looping_def app_set_playback_speed_def
      split: option.splits)

text \<open>
  C9. The loop of \<^verbatim>\<open>app_timer_increment\<close> ends, so the call returns, in every state over a
  circular list in which \<^verbatim>\<open>full_time\<close> is positive and no block has a negative delay.
  \<^verbatim>\<open>full_time\<close> is the total that the loop of \<^verbatim>\<open>app_new\<close> computes for the list; no function
  of the file assigns it afterwards. After \<^verbatim>\<open>fmod\<close> the timer is below \<^verbatim>\<open>full_time\<close>, and one
  round of the list takes at least \<^verbatim>\<open>full_time\<close> off it, which leaves it negative.
\<close>

theorem tick_terminates:
  assumes cyc: "graphic_cycle (mem app) (images app) ps"
    and cur: "current_frame app \<in> set ps"
    and ft: "sum_delays (mem app) (images app) (images app) 0 = Some (full_time app)"
    and pos: "0 < full_time app"
    and nonneg: "\<forall>p\<in>set ps. 0 \<le> block_delay (mem app) p"
  shows "\<exists>advanced app'. app_timer_increment app = Some (advanced, app')"
proof (cases "viewer_should_timer_increment (view app)")
  case False
  then show ?thesis by (auto simp: app_timer_increment_def)
next
  case True
  let ?m = "mem app" and ?c = "current_frame app" and ?s = "tick_start app"
  have run: "app_timer_increment app = advance_frames ?s False"
    using True by (simp add: app_timer_increment_def tick_start_def)
  have stops: "\<exists>n. \<not> tick_continues ((app_next_frame ^^ n) ?s)"
  proof (cases "timer ?s")
    case NaN
    then have "\<not> tick_continues ((app_next_frame ^^ 0) ?s)"
      by (simp add: tick_continues_def)
    then show ?thesis by blast
  next
    case PInf
    then show ?thesis by (simp add: tick_start_def fmod_finite)
  next
    case NInf
    then show ?thesis by (simp add: tick_start_def fmod_finite)
  next
    case (Num t)
    then have "fmod (dbl_add (timer app) (playback_speed (view app))) (Num (full_time app)) = Num t"
      by (simp add: tick_start_def)
    with pos have t: "t < full_time app" by (rule fmod_below)
    from cycle_rotate [OF cyc cur] obtain xs ys
      where ps: "ps = xs @ ?c # ys" and rot: "graphic_cycle ?m ?c (?c # ys @ xs)"
      by blast
    let ?qs = "?c # ys @ xs"
    have mem_s: "mem ?s = ?m" and cur_s: "current_frame ?s = ?c"
      by (simp_all add: tick_start_def)
    from rot have seg: "segment (mem ?s) (current_frame ?s) ?qs ?c"
      by (simp add: graphic_cycle_def mem_s cur_s)
    define e where "e = (app_next_frame ^^ length ?qs) ?s"
    have cur_e: "current_frame e = ?c" unfolding e_def using seg by (rule walk_current)
    have mem_e: "mem e = ?m" unfolding e_def by (simp only: advances_mem mem_s)
    have "timer e = Num (t - sum_list (map (block_delay (mem ?s)) ?qs))"
      unfolding e_def using seg Num by (rule walk_timer)
    then have tm_e: "timer e = Num (t - sum_list (map (block_delay ?m) ?qs))"
      by (simp only: mem_s)
    have "sum_list (map (block_delay ?m) ?qs) = sum_list (map (block_delay ?m) ps)"
      by (simp add: ps)
    also have "\<dots> = sum_list (map (block_delay ?m) (butlast ps)) + block_delay ?m (last ps)"
    proof -
      from cyc have "ps \<noteq> []" by (simp add: graphic_cycle_def)
      then have "ps = butlast ps @ [last ps]" by simp
      then have "map (block_delay ?m) ps
                   = map (block_delay ?m) (butlast ps) @ [block_delay ?m (last ps)]"
        by (metis list.simps(8,9) map_append)
      then show ?thesis by simp
    qed
    also have "sum_list (map (block_delay ?m) (butlast ps)) = full_time app"
      using sum_delays_cycle [OF cyc] ft by simp
    finally have total:
      "sum_list (map (block_delay ?m) ?qs) = full_time app + block_delay ?m (last ps)" .
    from cyc have "last ps \<in> set ps" by (simp add: graphic_cycle_def)
    with nonneg have "0 \<le> block_delay ?m (last ps)" by blast
    with total t have "t - sum_list (map (block_delay ?m) ?qs) < 0" by simp
    moreover from nonneg cur have "0 \<le> block_delay ?m ?c" by blast
    ultimately have "\<not> dbl_ge (timer e) (Num (delay (current_data e)))"
      unfolding tm_e cur_e mem_e block_delay_def by simp
    then have "\<not> tick_continues e" by (simp add: tick_continues_def)
    then show ?thesis unfolding e_def by blast
  qed
  then obtain n where n: "\<not> tick_continues ((app_next_frame ^^ n) ?s)"
    "\<forall>k<n. tick_continues ((app_next_frame ^^ k) ?s)"
    using exists_least_iff [of "\<lambda>n. \<not> tick_continues ((app_next_frame ^^ n) ?s)"] by auto
  from advance_frames_stops [of n ?s False] n
  have "advance_frames ?s False = Some (False \<or> 0 < n, (app_next_frame ^^ n) ?s)" by blast
  with run show ?thesis by simp
qed

theorem tick_terminates_witness:
  "graphic_cycle (mem demo_due) (images demo_due) [0, 1, 2]
   \<and> current_frame demo_due \<in> set [0, 1, 2]
   \<and> sum_delays (mem demo_due) (images demo_due) (images demo_due) 0 = Some (full_time demo_due)
   \<and> 0 < full_time demo_due
   \<and> (\<exists>advanced app'. app_timer_increment demo_due = Some (advanced, app'))"
proof -
  have a: "graphic_cycle (mem demo_due) (images demo_due) [0, 1, 2]"
    using demo_cycle by (simp add: demo_due_def demo_app_def)
  have b: "current_frame demo_due \<in> set [0, 1, 2]"
    by (simp add: demo_due_def demo_app_def)
  have c: "sum_delays (mem demo_due) (images demo_due) (images demo_due) 0
             = Some (full_time demo_due)"
    using sum_delays_cycle [OF a]
    by (simp add: demo_due_def demo_app_def block_delay_def demo_mem_def)
  have d: "0 < full_time demo_due"
    by (simp add: demo_due_def demo_app_def)
  have e: "\<forall>p\<in>set [0, 1, 2]. 0 \<le> block_delay (mem demo_due) p"
    by (simp add: demo_due_def demo_app_def block_delay_def demo_mem_def)
  from tick_terminates [OF a b c d e] a b c d show ?thesis by simp
qed

section \<open>The pixel count of the decoder\<close>









end
